theory Spec2Isabelle
  imports Complex_Main "HOL-Library.Signed_Division"
begin

section \<open>Numbers\<close>

text \<open>
  The library computes on JavaScript numbers, which are IEEE-754 doubles. A number is
  modelled by its real value; the infinities and NaN are outside the model, and so is the
  sign of a zero. The comparison \<^verbatim>\<open><=\<close> and the remainder \<^verbatim>\<open>%\<close> are exact on doubles;
  \<^verbatim>\<open>+\<close>, \<^verbatim>\<open>-\<close>, \<^verbatim>\<open>*\<close> and \<^verbatim>\<open>/\<close> round. The functions are therefore given twice:
  with exact arithmetic, for the properties of control flow and of integer operands that
  rounding does not touch, and with the arithmetic as a parameter, which is instantiated
  with the rounding of doubles where a property depends on it. Division by zero and the
  remainder by zero yield NaN or an infinity in the source; the text says where a function
  relies on a divisor that is not zero.
\<close>

type_synonym number = real

text \<open>
  The remainder operator \<^verbatim>\<open>x % y\<close> of the source: the result has the sign of the dividend,
  \<open>x - y * trunc (x / y)\<close>, where \<open>trunc\<close> rounds towards zero. On doubles the operator is
  exact, so no rounding is lost here. The source only applies it to a divisor that is not
  zero (\<^verbatim>\<open>k % 2\<close> and, in \<^verbatim>\<open>gcd\<close>, behind the test \<^verbatim>\<open>b == 0\<close>).
\<close>

definition trunc :: "number \<Rightarrow> int" where
  "trunc x = (if 0 \<le> x then \<lfloor>x\<rfloor> else \<lceil>x\<rceil>)"

definition js_rem :: "number \<Rightarrow> number \<Rightarrow> number" where
  "js_rem x y = x - y * of_int (trunc (x / y))"

section \<open>The summation engine\<close>

text \<open>
  \<^verbatim>\<open>
  function sumnation(f, filter, a, next, b) {
      var i = a;
      var answer = 0;
      while (i <= b) {
          if (filter(i)) {
              answer += f(i);
          }
          i = next(i);
      }
      return answer;
  }
  \<close>
  The loop may run forever, so it is a partial function into \<open>option\<close>: \<open>None\<close> is a call
  that does not return. The state of the loop is the cursor \<open>i\<close>, the accumulator
  \<open>answer\<close> and a log \<open>calls\<close> of the callbacks the loop has invoked, in order. The log
  is a ghost: no test and no sum reads it; it is there so that "the body never ran" can
  be stated.
\<close>

datatype call = Call_filter number | Call_f number | Call_next number

partial_function (option) sumnation_loop ::
  "(number \<Rightarrow> number) \<Rightarrow> (number \<Rightarrow> bool) \<Rightarrow> (number \<Rightarrow> number) \<Rightarrow> number \<Rightarrow>
   number \<Rightarrow> number \<Rightarrow> call list \<Rightarrow> (number \<times> call list) option" where
  "sumnation_loop f filter' next b i answer calls =
     (if i \<le> b then
        (if filter' i
         then sumnation_loop f filter' next b (next i) (answer + f i)
                (calls @ [Call_filter i, Call_f i, Call_next i])
         else sumnation_loop f filter' next b (next i) answer
                (calls @ [Call_filter i, Call_next i]))
      else Some (answer, calls))"

definition sumnation_run ::
  "(number \<Rightarrow> number) \<Rightarrow> (number \<Rightarrow> bool) \<Rightarrow> number \<Rightarrow> (number \<Rightarrow> number) \<Rightarrow> number \<Rightarrow>
   (number \<times> call list) option" where
  "sumnation_run f filter' a next b = sumnation_loop f filter' next b a 0 []"

definition sumnation ::
  "(number \<Rightarrow> number) \<Rightarrow> (number \<Rightarrow> bool) \<Rightarrow> number \<Rightarrow> (number \<Rightarrow> number) \<Rightarrow> number \<Rightarrow>
   number option" where
  "sumnation f filter' a next b = map_option fst (sumnation_run f filter' a next b)"

definition sumnation_calls ::
  "(number \<Rightarrow> number) \<Rightarrow> (number \<Rightarrow> bool) \<Rightarrow> number \<Rightarrow> (number \<Rightarrow> number) \<Rightarrow> number \<Rightarrow>
   call list option" where
  "sumnation_calls f filter' a next b = map_option snd (sumnation_run f filter' a next b)"

section \<open>The four wrappers\<close>

definition add :: "number \<Rightarrow> number \<Rightarrow> number option" where
  "add a b = sumnation (\<lambda>x. x) (\<lambda>x. True) a (\<lambda>x. x + 1) b"

definition filtered_add :: "(number \<Rightarrow> bool) \<Rightarrow> number \<Rightarrow> number \<Rightarrow> number option" where
  "filtered_add filter' a b = sumnation (\<lambda>x. x) filter' a (\<lambda>x. x + 1) b"

definition addition :: "(number \<Rightarrow> number) \<Rightarrow> number \<Rightarrow> number \<Rightarrow> number option" where
  "addition f a b = sumnation f (\<lambda>x. True) a (\<lambda>x. x + 1) b"

definition filtered_addition ::
  "(number \<Rightarrow> number) \<Rightarrow> (number \<Rightarrow> bool) \<Rightarrow> number \<Rightarrow> number \<Rightarrow> number option" where
  "filtered_addition f filter' a b = sumnation f filter' a (\<lambda>x. x + 1) b"

section \<open>Simpson's rule\<close>

text \<open>
  \<^verbatim>\<open>
  function simpsons_rule(f, a, b, n) {
      var h = (b - a) / n
      function y(k) { return f(a + (k * h)) }
      function simpson_coefficient(k) {
          if (k === 0) { return y(k); }
          else if (k % 2 === 0) { return 2 * y(k); }
          else { return 4 * y(k); }
      }
      return (h / 3) * addition(simpson_coefficient, 0, n);
  }
  \<close>
  The two inner functions close over \<open>f\<close>, \<open>a\<close> and \<open>h\<close>; the model passes them.
  \<open>h\<close> divides by \<open>n\<close>: for \<open>n = 0\<close> the source computes with an infinity or NaN,
  which the model does not have, so the model speaks for \<open>n \<noteq> 0\<close> only.
\<close>

definition y :: "(number \<Rightarrow> number) \<Rightarrow> number \<Rightarrow> number \<Rightarrow> number \<Rightarrow> number" where
  "y f a h k = f (a + (k * h))"

definition simpson_coefficient ::
  "(number \<Rightarrow> number) \<Rightarrow> number \<Rightarrow> number \<Rightarrow> number \<Rightarrow> number" where
  "simpson_coefficient f a h k =
     (if k = 0 then y f a h k
      else if js_rem k 2 = 0 then 2 * y f a h k
      else 4 * y f a h k)"

definition simpsons_rule ::
  "(number \<Rightarrow> number) \<Rightarrow> number \<Rightarrow> number \<Rightarrow> number \<Rightarrow> number option" where
  "simpsons_rule f a b n =
     (let h = (b - a) / n
      in map_option (\<lambda>s. (h / 3) * s) (addition (simpson_coefficient f a h) 0 n))"

text \<open>
  The coefficient as the specification words it, on the index \<open>k = 0, 1, \<dots>, n\<close>: 1 at
  \<open>k = 0\<close>, 2 at every even \<open>k > 0\<close> (the last index \<open>k = n\<close> included when \<open>n\<close>
  is even), 4 at every odd \<open>k\<close>.
\<close>

definition spec_coefficient :: "nat \<Rightarrow> number" where
  "spec_coefficient k = (if k = 0 then 1 else if even k then 2 else 4)"

section \<open>Coprimality\<close>

text \<open>
  \<^verbatim>\<open>
  function coprime(n) {
      function gcd(a, b) {
          if (b == 0) { return a } else { return gcd(b, a % b) }
      }
      // Assumes that i < n
      return (i => gcd(i, n) == 1)
  }
  \<close>
  The recursion of \<open>gcd\<close> is on numbers and nothing in the source bounds it, so it is a
  partial function as well; that it returns is a theorem, not a property of the definition.
\<close>

partial_function (option) gcd_js :: "number \<Rightarrow> number \<Rightarrow> number option" where
  "gcd_js a b = (if b = 0 then Some a else gcd_js b (js_rem a b))"

definition coprime_js :: "number \<Rightarrow> number \<Rightarrow> bool option" where
  "coprime_js n i = map_option (\<lambda>g. g = 1) (gcd_js i n)"

text \<open>
  The Euclidean recursion as the specification words it, on the integers:
  \<open>gcd(a, 0) = a\<close> and \<open>gcd(a, b) = gcd(b, a mod b)\<close>, with the \<open>mod\<close> of the integers
  (the result has the sign of the divisor). The absolute value of the second argument
  decreases, so the recursion is total.
\<close>

function spec_gcd :: "int \<Rightarrow> int \<Rightarrow> int" where
  "spec_gcd a b = (if b = 0 then a else spec_gcd b (a mod b))"
  by pat_completeness auto
termination
proof (relation "measure (\<lambda>(a, b). nat \<bar>b\<bar>)")
  show "wf (measure (\<lambda>(a, b). nat \<bar>b\<bar>))" by simp
next
  fix a b :: int
  assume "b \<noteq> 0"
  then have "\<bar>a mod b\<bar> < \<bar>b\<bar>"
    by (rule abs_mod_less)
  then show "((b, a mod b), (a, b)) \<in> measure (\<lambda>(a, b). nat \<bar>b\<bar>)"
    by simp
qed

declare spec_gcd.simps [simp del]

section \<open>The arithmetic of doubles\<close>

text \<open>
  Rounding to the nearest double, ties to the even significand. A double other than zero
  is \<open>m * 2\<^sup>e\<^sup>-\<^sup>5\<^sup>2\<close> with an integer \<open>m\<close> of magnitude below \<open>2\<^sup>5\<^sup>3\<close>; for a real
  \<open>x\<close> the exponent \<open>e\<close> is \<open>\<lfloor>log\<^sub>2 \<bar>x\<bar>\<rfloor>\<close>, not below \<open>-1022\<close> (below it the
  doubles are equally spaced), and \<open>ulp x\<close> is the spacing of the doubles around \<open>x\<close>.
  A result that rounds to magnitude \<open>2\<^sup>1\<^sup>0\<^sup>2\<^sup>4\<close> or more is an infinity in the source
  and outside the model; the theorems on this arithmetic stay far below it.
\<close>

definition rne :: "real \<Rightarrow> int" where
  "rne q = (let f = \<lfloor>q\<rfloor>; r = q - of_int f
            in if r < 1 / 2 then f else if 1 / 2 < r then f + 1 else if even f then f else f + 1)"

definition expo :: "real \<Rightarrow> int" where
  "expo x = max \<lfloor>log 2 \<bar>x\<bar>\<rfloor> (- 1022)"

definition ulp :: "real \<Rightarrow> real" where
  "ulp x = 2 powr of_int (expo x - 52)"

definition rnd :: "real \<Rightarrow> real" where
  "rnd x = (if x = 0 then 0 else of_int (rne (x / ulp x)) * ulp x)"

text \<open>
  An arithmetic is the four operations that round. \<open>exact_arith\<close> does not round;
  \<open>double_arith\<close> rounds every result, as the source does.
\<close>

record arith =
  add_op :: "number \<Rightarrow> number \<Rightarrow> number"
  sub_op :: "number \<Rightarrow> number \<Rightarrow> number"
  mul_op :: "number \<Rightarrow> number \<Rightarrow> number"
  div_op :: "number \<Rightarrow> number \<Rightarrow> number"

definition exact_arith :: arith where
  "exact_arith = \<lparr>add_op = (+), sub_op = (-), mul_op = (*), div_op = (/)\<rparr>"

definition double_arith :: arith where
  "double_arith = \<lparr>add_op = (\<lambda>x y. rnd (x + y)), sub_op = (\<lambda>x y. rnd (x - y)),
     mul_op = (\<lambda>x y. rnd (x * y)), div_op = (\<lambda>x y. rnd (x / y))\<rparr>"

section \<open>The functions with the arithmetic as a parameter\<close>

text \<open>
  The same loop, with the addition of \<^verbatim>\<open>answer += f(i)\<close> taken from the arithmetic
  \<open>A\<close>; the successor \<^verbatim>\<open>x => x + 1\<close> of \<^verbatim>\<open>addition\<close> and the operations of
  \<^verbatim>\<open>simpsons_rule\<close> are taken from it as well. With \<open>exact_arith\<close> these are the
  functions above.
\<close>

partial_function (option) sumnation_loop_on ::
  "arith \<Rightarrow> (number \<Rightarrow> number) \<Rightarrow> (number \<Rightarrow> bool) \<Rightarrow> (number \<Rightarrow> number) \<Rightarrow> number \<Rightarrow>
   number \<Rightarrow> number \<Rightarrow> call list \<Rightarrow> (number \<times> call list) option" where
  "sumnation_loop_on A f filter' next b i answer calls =
     (if i \<le> b then
        (if filter' i
         then sumnation_loop_on A f filter' next b (next i) (add_op A answer (f i))
                (calls @ [Call_filter i, Call_f i, Call_next i])
         else sumnation_loop_on A f filter' next b (next i) answer
                (calls @ [Call_filter i, Call_next i]))
      else Some (answer, calls))"

definition sumnation_on ::
  "arith \<Rightarrow> (number \<Rightarrow> number) \<Rightarrow> (number \<Rightarrow> bool) \<Rightarrow> number \<Rightarrow> (number \<Rightarrow> number) \<Rightarrow> number \<Rightarrow>
   number option" where
  "sumnation_on A f filter' a next b =
     map_option fst (sumnation_loop_on A f filter' next b a 0 [])"

definition addition_on :: "arith \<Rightarrow> (number \<Rightarrow> number) \<Rightarrow> number \<Rightarrow> number \<Rightarrow> number option" where
  "addition_on A f a b = sumnation_on A f (\<lambda>x. True) a (\<lambda>x. add_op A x 1) b"

definition y_on :: "arith \<Rightarrow> (number \<Rightarrow> number) \<Rightarrow> number \<Rightarrow> number \<Rightarrow> number \<Rightarrow> number" where
  "y_on A f a h k = f (add_op A a (mul_op A k h))"

definition simpson_coefficient_on ::
  "arith \<Rightarrow> (number \<Rightarrow> number) \<Rightarrow> number \<Rightarrow> number \<Rightarrow> number \<Rightarrow> number" where
  "simpson_coefficient_on A f a h k =
     (if k = 0 then y_on A f a h k
      else if js_rem k 2 = 0 then mul_op A 2 (y_on A f a h k)
      else mul_op A 4 (y_on A f a h k))"

definition simpsons_rule_on ::
  "arith \<Rightarrow> (number \<Rightarrow> number) \<Rightarrow> number \<Rightarrow> number \<Rightarrow> number \<Rightarrow> number option" where
  "simpsons_rule_on A f a b n =
     (let h = div_op A (sub_op A b a) n
      in map_option (\<lambda>s. mul_op A (div_op A h 3) s)
           (addition_on A (simpson_coefficient_on A f a h) 0 n))"

text \<open>
  The term of the specification's sum at the index \<open>k\<close>, in the arithmetic \<open>A\<close>: the
  ordinate \<open>f (a + k * h)\<close> itself at \<open>k = 0\<close>, twice the ordinate at every even
  \<open>k > 0\<close> (the last index included), four times the ordinate at every odd \<open>k\<close>.
\<close>

definition spec_term :: "arith \<Rightarrow> (number \<Rightarrow> number) \<Rightarrow> number \<Rightarrow> number \<Rightarrow> int \<Rightarrow> number" where
  "spec_term A f a h k =
     (let v = f (add_op A a (mul_op A (of_int k) h))
      in if k = 0 then v else if even k then mul_op A 2 v else mul_op A 4 v)"

section \<open>The remainder on integers\<close>

text \<open>
  On integer operands the quotient truncated towards zero is \<open>sdiv\<close> and the remainder
  of the source is \<open>smod\<close>; on a natural number the test \<^verbatim>\<open>k % 2 === 0\<close> is evenness.
\<close>

lemma trunc_of_int_div:
  assumes "b \<noteq> 0"
  shows "trunc (of_int a / of_int b) = a sdiv b"
proof -
  consider "0 \<le> a" "0 < b" | "0 < a" "b < 0" | "a = 0" | "a < 0" "0 < b" | "a < 0" "b < 0"
    using assms by linarith
  then show ?thesis
  proof cases
    case 1
    then show ?thesis 
      by (simp add: trunc_def signed_divide_int_def sgn_if floor_divide_of_int_eq)
  next
    case 2
    then have "\<not> 0 \<le> real_of_int a / real_of_int b"
      by (simp add: zero_le_divide_iff)
    with 2 show ?thesis
      by (simp add: trunc_def signed_divide_int_def sgn_if ceiling_divide_eq_div div_minus_right)
  next
    case 3
    then show ?thesis by (simp add: trunc_def)
  next
    case 4
    then have "\<not> 0 \<le> real_of_int a / real_of_int b"
      by (simp add: zero_le_divide_iff)
    with 4 show ?thesis
      by (simp add: trunc_def signed_divide_int_def sgn_if ceiling_divide_eq_div)
  next
    case 5
    then have "0 \<le> real_of_int a / real_of_int b"
      by (simp add: zero_le_divide_iff)
    with 5 show ?thesis
      using div_minus_minus [of a b]
      by (simp add: trunc_def signed_divide_int_def sgn_if floor_divide_of_int_eq)
  qed
qed

lemma js_rem_of_int:
  assumes "b \<noteq> 0"
  shows "js_rem (of_int a) (of_int b) = of_int (a smod b)"
proof -
  have "a smod b = a - b * (a sdiv b)"
    by (simp add: minus_mult_sdiv_eq_smod)
  then show ?thesis
    using assms by (simp add: js_rem_def trunc_of_int_div)
qed

lemma js_rem_of_nat_2: "js_rem (of_nat j) 2 = 0 \<longleftrightarrow> even j"
proof -
  have "js_rem (of_int (int j)) (of_int 2) = of_int (int j smod 2)"
    by (rule js_rem_of_int) simp
  moreover have "int j smod 2 = int j mod 2"
    by (simp add: signed_modulo_int_def sgn_if)
  ultimately have "js_rem (of_nat j) 2 = of_int (int j mod 2)"
    by simp
  moreover have "int j mod 2 = 0 \<longleftrightarrow> even j"
    by presburger
  ultimately show ?thesis
    by simp
qed

lemma js_rem_int_2: "js_rem (of_int k) 2 = 0 \<longleftrightarrow> even k"
proof -
  have "js_rem (of_int k) (of_int 2) = of_int (k smod 2)"
    by (rule js_rem_of_int) simp
  moreover have "k smod 2 = 0 \<longleftrightarrow> even k"
    by (auto simp add: signed_modulo_int_def sgn_if even_iff_mod_2_eq_zero abs_if)
  ultimately show ?thesis by simp
qed

section \<open>One step of the loop, and the loop with successor \<open>x + 1\<close>\<close>

lemma loop_exit: "\<not> i \<le> b \<Longrightarrow> sumnation_loop f filter' next b i answer calls = Some (answer, calls)"
  by (subst sumnation_loop.simps) simp

lemma loop_step:
  "i \<le> b \<Longrightarrow> sumnation_loop f filter' next b i answer calls =
     (if filter' i
      then sumnation_loop f filter' next b (next i) (answer + f i)
             (calls @ [Call_filter i, Call_f i, Call_next i])
      else sumnation_loop f filter' next b (next i) answer
             (calls @ [Call_filter i, Call_next i]))"
  by (subst sumnation_loop.simps) simp

text \<open>
  With the successor \<open>x + 1\<close> the loop returns from every start: it visits
  \<open>i, i + 1, \<dots>\<close> as long as the cursor is at most \<open>b\<close>, which is
  \<open>\<lfloor>b - i\<rfloor> + 1\<close> cursors when \<open>i \<le> b\<close> and none otherwise.
\<close>

lemma loop_plus1:
  "map_option fst (sumnation_loop f filter' (\<lambda>x. x + 1) b i answer calls) =
     Some (answer + (\<Sum>j<nat (\<lfloor>b - i\<rfloor> + 1). if filter' (i + real j) then f (i + real j) else 0))"
proof (induction "nat (\<lfloor>b - i\<rfloor> + 1)" arbitrary: i answer calls)
  case 0
  then have "\<lfloor>b - i\<rfloor> + 1 \<le> 0" by simp
  then have "\<lfloor>b - i\<rfloor> < 0" by linarith
  then have "b - i < 0" by (simp only: floor_less_zero)
  then have "\<not> i \<le> b" by simp
  with 0 show ?case by (simp add: loop_exit)
next
  case (Suc m)
  then have "0 \<le> \<lfloor>b - i\<rfloor>" by linarith
  then have le: "i \<le> b" by simp
  have "b - (i + 1) = b - i - 1" by simp
  then have "\<lfloor>b - (i + 1)\<rfloor> = \<lfloor>b - i\<rfloor> - 1"
    by (simp only: floor_diff_one)
  with Suc.hyps(2) have m: "m = nat (\<lfloor>b - (i + 1)\<rfloor> + 1)" by simp
  let ?g = "\<lambda>x. if filter' x then f x else 0"
  have suc: "\<And>j. i + real (Suc j) = i + 1 + real j" by simp
  have "(\<Sum>j<Suc m. ?g (i + real j)) = ?g (i + real 0) + (\<Sum>j<m. ?g (i + real (Suc j)))"
    by (rule sum.lessThan_Suc_shift)
  also have "\<dots> = ?g i + (\<Sum>j<m. ?g (i + 1 + real j))"
    by (simp only: suc of_nat_0 add_0_right)
  finally have shift: "(\<Sum>j<Suc m. ?g (i + real j)) = ?g i + (\<Sum>j<m. ?g (i + 1 + real j))" .
  have IH: "map_option fst (sumnation_loop f filter' (\<lambda>x. x + 1) b (i + 1) answer' calls') =
        Some (answer' + (\<Sum>j<m. ?g (i + 1 + real j)))" for answer' calls'
    using Suc.hyps(1) [OF m, of answer' calls'] unfolding m [symmetric] .
  have "map_option fst (sumnation_loop f filter' (\<lambda>x. x + 1) b i answer calls) =
        Some (answer + ?g i + (\<Sum>j<m. ?g (i + 1 + real j)))"
    using le by (cases "filter' i") (simp_all only: loop_step IH if_True if_False add_0_right)
  with shift Suc.hyps(2) show ?case
    by (simp add: add.assoc del: sum.lessThan_Suc)
qed

lemma sumnation_plus1:
  "sumnation f filter' a (\<lambda>x. x + 1) b =
     Some (\<Sum>j<nat (\<lfloor>b - a\<rfloor> + 1). if filter' (a + real j) then f (a + real j) else 0)"
  using loop_plus1 [of f filter' b a 0 "[]"]
  by (simp only: sumnation_def sumnation_run_def add_0_left)

lemma addition_of_nat: "addition f 0 (real n) = Some (\<Sum>k\<le>n. f (real k))"
proof -
  have "nat (\<lfloor>real n - 0\<rfloor> + 1) = Suc n" by simp
  then show ?thesis
    by (simp only: addition_def sumnation_plus1 if_True add_0_left lessThan_Suc_atMost)
qed

section \<open>The engine on an empty range, and the wrappers\<close>

text \<open>
  C5. When \<open>a > b\<close> the call returns 0 whatever \<open>f\<close>, \<open>filter\<close> and \<open>next\<close> are, and
  the log of callback invocations is empty: none of the three has been evaluated.
\<close>

theorem sumnation_empty_range:
  assumes "b < a"
  shows "sumnation f filter' a next b = Some 0 \<and> sumnation_calls f filter' a next b = Some []"
  using assms
  by (simp add: sumnation_def sumnation_calls_def sumnation_run_def sumnation_loop.simps)

theorem sumnation_empty_range_witness:
  "(2::real) < 5 \<and> sumnation (\<lambda>x. x * x) (\<lambda>x. x < 3) 5 (\<lambda>x. x - 1) 2 = Some 0 \<and>
   sumnation_calls (\<lambda>x. x * x) (\<lambda>x. x < 3) 5 (\<lambda>x. x - 1) 2 = Some []"
  using sumnation_empty_range [of 2 5 "\<lambda>x. x * x" "\<lambda>x. x < 3" "\<lambda>x. x - 1"] by simp

text \<open>
  C7. Each wrapper is the engine with its fixed parameters: identity transform, always-true
  filter and the successor \<open>x + 1\<close>, whichever the wrapper does not take from its caller.
\<close>

theorem wrappers_are_sumnation:
  "add a b = sumnation (\<lambda>x. x) (\<lambda>x. True) a (\<lambda>x. x + 1) b \<and>
   filtered_add filter' a b = sumnation (\<lambda>x. x) filter' a (\<lambda>x. x + 1) b \<and>
   addition f a b = sumnation f (\<lambda>x. True) a (\<lambda>x. x + 1) b \<and>
   filtered_addition f filter' a b = sumnation f filter' a (\<lambda>x. x + 1) b"
  by (simp add: add_def filtered_add_def addition_def filtered_addition_def)

text \<open>
  C8. With the always-true filter, \<open>filtered_add\<close> is \<open>add\<close> on the same bounds:
  the two calls are one call of the engine, so they return the same value or neither
  returns.
\<close>

theorem filtered_add_always_true:
  "filtered_add (\<lambda>x. True) a b = add a b"
  by (simp add: filtered_add_def add_def)

section \<open>Termination of the engine\<close>

text \<open>
  The loop returns when the cursor moves inside a set \<open>D\<close> that has finitely many
  members up to \<open>b\<close> and every such member is strictly increased by \<open>next\<close>: each
  step removes the cursor from the members still ahead.
\<close>

lemma loop_terminates_on_grid:
  assumes fin: "finite {x \<in> D. x \<le> b}"
    and step: "\<And>x. x \<in> D \<Longrightarrow> x \<le> b \<Longrightarrow> next x \<in> D \<and> x < next x"
    and i: "i \<in> D"
  shows "\<exists>r. sumnation_loop f filter' next b i answer calls = Some r"
  using i
proof (induction "card {x \<in> D. i \<le> x \<and> x \<le> b}" arbitrary: i answer calls rule: less_induct)
  case less
  show ?case
  proof (cases "i \<le> b")
    case False
    then show ?thesis by (simp add: loop_exit)
  next
    case True
    with less.prems step have n: "next i \<in> D" "i < next i" by auto
    have "i \<in> {x \<in> D. i \<le> x \<and> x \<le> b}" "i \<notin> {x \<in> D. next i \<le> x \<and> x \<le> b}"
      using n True less.prems by auto
    moreover have "{x \<in> D. next i \<le> x \<and> x \<le> b} \<subseteq> {x \<in> D. i \<le> x \<and> x \<le> b}"
      using n by auto
    ultimately have "{x \<in> D. next i \<le> x \<and> x \<le> b} \<subset> {x \<in> D. i \<le> x \<and> x \<le> b}"
      by blast
    moreover have "finite {x \<in> D. i \<le> x \<and> x \<le> b}"
      by (rule finite_subset [OF _ fin]) auto
    ultimately have "card {x \<in> D. next i \<le> x \<and> x \<le> b} < card {x \<in> D. i \<le> x \<and> x \<le> b}"
      by (simp add: psubset_card_mono)
    from less.hyps [OF this n(1)] True show ?thesis
      by (simp add: loop_step)
  qed
qed

text \<open>
  The loop does not return when the cursor starts in a set that lies below \<open>b\<close> and
  that \<open>next\<close> does not leave; a returning call is refuted by induction on the
  computation. In particular it does not return when it is entered and \<open>next\<close> never
  moves a cursor up.
\<close>

lemma loop_invariant_aux:
  "sumnation_loop f filter' next b i answer calls = Some r \<Longrightarrow>
     (\<forall>x. I x \<longrightarrow> x \<le> b \<and> I (next x)) \<longrightarrow> \<not> I i"
proof (rule sumnation_loop.raw_induct
    [where P = "\<lambda>f filter' next b i answer calls r. (\<forall>x. I x \<longrightarrow> x \<le> b \<and> I (next x)) \<longrightarrow> \<not> I i"])
  fix loop and f :: "number \<Rightarrow> number" and filter' "next" b i and answer :: number
    and calls and r :: "number \<times> call list"
  assume IH: "\<And>f filter' next b i answer calls r.
      loop f filter' next b i answer calls = Some r \<Longrightarrow>
      (\<forall>x. I x \<longrightarrow> x \<le> b \<and> I (next x)) \<longrightarrow> \<not> I i"
    and body: "(if i \<le> b
          then if filter' i
            then loop f filter' next b (next i) (answer + f i)
                   (calls @ [Call_filter i, Call_f i, Call_next i])
            else loop f filter' next b (next i) answer (calls @ [Call_filter i, Call_next i])
          else Some (answer, calls)) = Some r"
  show "(\<forall>x. I x \<longrightarrow> x \<le> b \<and> I (next x)) \<longrightarrow> \<not> I i"
  proof (intro impI notI)
    assume inv: "\<forall>x. I x \<longrightarrow> x \<le> b \<and> I (next x)" and i: "I i"
    then have "i \<le> b" "I (next i)" by simp_all
    with body IH inv show False
      by (auto split: if_splits)
  qed
qed

lemma loop_invariant:
  assumes "\<And>x. I x \<Longrightarrow> x \<le> b \<and> I (next x)" and "I i"
  shows "sumnation_loop f filter' next b i answer calls = None"
proof (cases "sumnation_loop f filter' next b i answer calls")
  case None
  then show ?thesis .
next
  case (Some r)
  from loop_invariant_aux [OF this, of I] assms show ?thesis by blast
qed

lemma loop_stuck:
  "i \<le> b \<Longrightarrow> \<forall>x\<le>b. next x \<le> x \<Longrightarrow> sumnation_loop f filter' next b i answer calls = None"
  by (rule loop_invariant [where I = "\<lambda>x. x \<le> b"]) auto

text \<open>
  On the exact reals of this model a successor that strictly increases every number can
  still keep the cursor below \<open>b\<close> for ever: from 0 the cursor below runs through
  \<open>1/2, 3/4, 7/8, \<dots>\<close> and never passes 1. On doubles there are finitely many numbers
  below 1, and the same call returns there; this is why the termination theorem asks for
  finitely many cursor values up to \<open>b\<close>.
\<close>

lemma converging_cursor:
  "(\<forall>x::number. x < (if x < 1 then (x + 1) / 2 else x + 1)) \<and>
   sumnation f filter' 0 (\<lambda>x. if x < 1 then (x + 1) / 2 else x + 1) 1 = None"
proof
  show "\<forall>x::number. x < (if x < 1 then (x + 1) / 2 else x + 1)"
    by simp
  have "sumnation_loop f filter' (\<lambda>x. if x < 1 then (x + 1) / 2 else x + 1) 1 0 0 [] = None"
    by (rule loop_invariant [where I = "\<lambda>x. x < 1"]) simp_all
  then show "sumnation f filter' 0 (\<lambda>x. if x < 1 then (x + 1) / 2 else x + 1) 1 = None"
    by (simp add: sumnation_def sumnation_run_def)
qed

text \<open>
  C4, as amended. (1) If the cursor ranges over a set \<open>D\<close> of numbers with finitely many
  members up to \<open>b\<close> (as the doubles are, and as the integers from \<open>a\<close> on are), \<open>a\<close>
  is in \<open>D\<close>, and \<open>next\<close> maps every member \<open>x \<le> b\<close> into \<open>D\<close> with
  \<open>next x > x\<close>, the call returns. (2) If \<open>a \<le> b\<close> and \<open>next x \<le> x\<close> for every
  \<open>x \<le> b\<close>, the call does not return.

  The claim as stated fails in its second half: for \<open>a > b\<close> the call returns whatever
  \<open>next\<close> is, and a successor that fails to increase one cursor may still leave the range
  at the next one. In its first half the finiteness is what the claim rests on; the doubles
  have it for every \<open>b\<close>, the exact reals of this model do not.
\<close>

theorem sumnation_termination:
  "(a \<in> D \<and> finite {x \<in> D. x \<le> b} \<and> (\<forall>x\<in>D. x \<le> b \<longrightarrow> next x \<in> D \<and> x < next x)
      \<longrightarrow> (\<exists>r. sumnation f filter' a next b = Some r)) \<and>
   (a \<le> b \<and> (\<forall>x\<le>b. next x \<le> x) \<longrightarrow> sumnation f filter' a next b = None)"
proof (intro conjI impI)
  assume "a \<in> D \<and> finite {x \<in> D. x \<le> b} \<and> (\<forall>x\<in>D. x \<le> b \<longrightarrow> next x \<in> D \<and> x < next x)"
  then have "\<exists>r. sumnation_loop f filter' next b a 0 [] = Some r"
    by (intro loop_terminates_on_grid [of D b "next" a]) auto
  then show "\<exists>r. sumnation f filter' a next b = Some r"
    by (auto simp add: sumnation_def sumnation_run_def)
next
  assume "a \<le> b \<and> (\<forall>x\<le>b. next x \<le> x)"
  then show "sumnation f filter' a next b = None"
    by (simp add: sumnation_def sumnation_run_def loop_stuck)
qed

theorem sumnation_termination_witness:
  "(\<exists>r. sumnation (\<lambda>x. x) (\<lambda>x. True) 0 (\<lambda>x. 2 * x + 1) 5 = Some r) \<and>
   sumnation (\<lambda>x. x) (\<lambda>x. True) 0 (\<lambda>x. x) 5 = None"
proof -
  have "(0::real) \<in> {0, 1, 3, 7}" by simp
  moreover have "{x \<in> {0, 1, 3, 7}. x \<le> (5::real)} = {0, 1, 3}" by auto
  then have "finite {x \<in> {0, 1, 3, 7}. x \<le> (5::real)}" by simp
  moreover have "\<forall>x\<in>{0, 1, 3, 7::real}. x \<le> 5 \<longrightarrow> 2 * x + 1 \<in> {0, 1, 3, 7} \<and> x < 2 * x + 1"
    by simp
  moreover have "(0::real) \<le> 5 \<and> (\<forall>x\<le>5::real. x \<le> x)" by simp
  ultimately show ?thesis
    using sumnation_termination [of 0 "{0, 1, 3, 7}" 5 "\<lambda>x. 2 * x + 1" "\<lambda>x. x" "\<lambda>x. True"]
      sumnation_termination [of 0 "{}" 5 "\<lambda>x. x" "\<lambda>x. x" "\<lambda>x. True"]
    by blast
qed

text \<open>
  Two calls that return although \<open>next\<close> does not strictly increase the cursor: with
  \<open>a = 1 > b = 0\<close> and \<open>next\<close> the identity the loop is not entered; with \<open>a = 0\<close>,
  \<open>b = 1\<close> the successor sends the cursor 0 down to \<open>-1\<close> and then to 2.
\<close>

theorem sumnation_termination_counterexample:
  "\<not> (1::number) < (\<lambda>x. x) 1 \<and>
   sumnation (\<lambda>x. x) (\<lambda>x. True) 1 (\<lambda>x. x) 0 = Some 0 \<and>
   \<not> (0::number) < (\<lambda>x. if x = 0 then - 1 else 2) 0 \<and>
   sumnation (\<lambda>x. x) (\<lambda>x. True) 0 (\<lambda>x. if x = 0 then - 1 else 2) 1 = Some (- 1)"
  by (simp add: sumnation_def sumnation_run_def sumnation_loop.simps)

section \<open>Simpson's rule as a sum, in exact arithmetic\<close>

lemma simpson_coefficient_of_nat:
  "simpson_coefficient f a h (real k) = spec_coefficient k * f (a + real k * h)"
  by (simp add: simpson_coefficient_def y_def spec_coefficient_def js_rem_of_nat_2)

lemma simpsons_rule_sum:
  "simpsons_rule f a b (real n) =
     Some ((b - a) / real n / 3 * (\<Sum>k\<le>n. spec_coefficient k * f (a + real k * ((b - a) / real n))))"
  by (simp only: simpsons_rule_def Let_def addition_of_nat simpson_coefficient_of_nat option.map)

text \<open>
  The weighted sum of cubes in closed form, two indices at a time.
\<close>

lemma simpson_cube_sum:
  "(\<Sum>k\<le>2 * m. spec_coefficient k * (real k * real k * real k)) = 12 * real m ^ 4 + 8 * real m ^ 3"
proof (induction m)
  case 0
  show ?case by (simp add: spec_coefficient_def)
next
  case (Suc m)
  have "(\<Sum>k\<le>2 * Suc m. spec_coefficient k * (real k * real k * real k)) =
        (\<Sum>k\<le>2 * m. spec_coefficient k * (real k * real k * real k))
        + spec_coefficient (Suc (2 * m)) * (real (Suc (2 * m)) * real (Suc (2 * m)) * real (Suc (2 * m)))
        + spec_coefficient (Suc (Suc (2 * m))) * (real (Suc (Suc (2 * m))) * real (Suc (Suc (2 * m))) * real (Suc (Suc (2 * m))))"
    by simp
  also have "spec_coefficient (Suc (2 * m)) = 4" by (simp add: spec_coefficient_def)
  also have "spec_coefficient (Suc (Suc (2 * m))) = 2" by (simp add: spec_coefficient_def)
  finally show ?case
    unfolding Suc.IH by (simp add: algebra_simps power4_eq_xxxx power3_eq_cube)
qed

text \<open>
  C1. The claim is that \<open>simpsons_rule\<close> on \<open>x \<mapsto> x\<^sup>3\<close> over \<open>[0, 1]\<close> with
  \<open>n = 1000\<close> is within \<open>10\<^sup>-\<^sup>6\<close> of \<open>1/4\<close>. The source weighs the last ordinate
  \<open>f b\<close> with 2 where Simpson's rule has 1, so it returns \<open>1/4 + (h / 3) * f 1\<close>, that
  is \<open>751/3000\<close>, which is \<open>1/3000\<close> away from \<open>1/4\<close>.
\<close>

theorem simpsons_rule_cube_1000:
  "simpsons_rule (\<lambda>x. x * x * x) 0 1 1000 = Some (751 / 3000) \<and>
   \<not> \<bar>751 / 3000 - 0.25 :: real\<bar> \<le> 1 / 1000000"
proof -
  have "simpsons_rule (\<lambda>x. x * x * x) 0 1 (real (2 * 500)) =
      Some ((1 - 0) / real (2 * 500) / 3 *
        (\<Sum>k\<le>2 * 500. spec_coefficient k * ((0 + real k * ((1 - 0) / real (2 * 500))) *
           (0 + real k * ((1 - 0) / real (2 * 500))) * (0 + real k * ((1 - 0) / real (2 * 500))))))"
    by (rule simpsons_rule_sum)
  also have "(\<Sum>k\<le>2 * 500. spec_coefficient k * ((0 + real k * ((1 - 0) / real (2 * 500))) *
           (0 + real k * ((1 - 0) / real (2 * 500))) * (0 + real k * ((1 - 0) / real (2 * 500))))) =
        (\<Sum>k\<le>2 * 500. spec_coefficient k * (real k * real k * real k)) / 1000000000"
    by (simp add: sum_divide_distrib)
  also have "(\<Sum>k\<le>2 * 500. spec_coefficient k * (real k * real k * real k)) = 12 * real 500 ^ 4 + 8 * real 500 ^ 3"
    by (rule simpson_cube_sum)
  finally have "simpsons_rule (\<lambda>x. x * x * x) 0 1 1000 = Some (751 / 3000)"
    by simp
  then show ?thesis by simp
qed

section \<open>Rounding\<close>

text \<open>
  Rounding leaves a real alone that is an integer multiple of its \<open>ulp\<close>, and so every
  integer of magnitude up to \<open>2\<^sup>5\<^sup>3\<close>. Between \<open>2\<^sup>5\<^sup>3\<close> and \<open>2\<^sup>5\<^sup>4\<close> the doubles are
  the even integers: \<open>2\<^sup>5\<^sup>3 + 1\<close> rounds to \<open>2\<^sup>5\<^sup>3\<close> and \<open>2\<^sup>5\<^sup>4 - 3\<close> to
  \<open>2\<^sup>5\<^sup>4 - 4\<close>.
\<close>

lemma rne_of_int [simp]: "rne (of_int z) = z"
  by (simp add: rne_def)

lemma ulp_pos: "0 < ulp x"
  by (simp add: ulp_def)

lemma expo_eq:
  assumes "2 powr of_int e \<le> \<bar>x\<bar>" and "\<bar>x\<bar> < 2 powr of_int (e + 1)" and "- 1022 \<le> e"
  shows "expo x = e"
proof -
  have "0 < (2::real) powr of_int e" by simp
  with assms(1) have "0 < \<bar>x\<bar>" by linarith
  then have "\<lfloor>log 2 \<bar>x\<bar>\<rfloor> = e"
    using assms(1,2) by (simp add: floor_log_eq_powr_iff)
  with assms(3) show ?thesis by (simp add: expo_def)
qed

lemma rnd_exact:
  assumes "x = of_int z * ulp x"
  shows "rnd x = x"
proof (cases "x = 0")
  case True
  then show ?thesis by (simp add: rnd_def)
next
  case False
  have "x / ulp x = of_int z"
    using assms ulp_pos [of x] by (simp add: field_simps)
  then have "rnd x = of_int z * ulp x"
    using False by (simp add: rnd_def)
  with assms show ?thesis by simp
qed

lemma rnd_of_int:
  assumes "\<bar>k\<bar> \<le> 2 ^ 53"
  shows "rnd (of_int k) = of_int k"
proof (cases "k = 0")
  case True
  then show ?thesis by (simp add: rnd_def)
next
  case False
  define e where "e = \<lfloor>log 2 \<bar>real_of_int k\<bar>\<rfloor>"
  have pos: "0 < \<bar>real_of_int k\<bar>" using False by simp
  have bounds: "2 powr of_int e \<le> \<bar>real_of_int k\<bar>" "\<bar>real_of_int k\<bar> < 2 powr of_int (e + 1)"
    using floor_log_eq_powr_iff [of "\<bar>real_of_int k\<bar>" 2 e] pos by (simp_all add: e_def)
  have "1 \<le> \<bar>real_of_int k\<bar>" using False by (simp flip: of_int_abs)
  then have e0: "0 \<le> e"
    by (simp add: e_def)
  have "\<bar>real_of_int k\<bar> \<le> 2 ^ 53"
    using assms by (simp flip: of_int_abs)
  with bounds(1) have "2 powr of_int e \<le> (2::real) powr of_int 53" by simp
  then have "real_of_int e \<le> real_of_int 53"
    by (subst (asm) powr_le_cancel_iff) simp_all
  then have e53: "e \<le> 53" by linarith
  have ex: "expo (of_int k) = e"
    using e0 by (simp add: expo_def e_def)
  show ?thesis
  proof (cases "e = 53")
    case True
    with bounds(1) have "2 ^ 53 \<le> \<bar>real_of_int k\<bar>" by simp
    with \<open>\<bar>real_of_int k\<bar> \<le> 2 ^ 53\<close> have "\<bar>real_of_int k\<bar> = 2 ^ 53" by simp
    then have "\<bar>k\<bar> = 2 ^ 53"
      by (metis of_int_abs of_int_eq_numeral_power_cancel_iff)
    then have "k = 2 ^ 53 \<or> k = - (2 ^ 53)" by linarith
    then have "k = 2 * (k div 2)" by auto
    then have "real_of_int k = of_int (k div 2) * 2"
      by (metis mult.commute of_int_mult of_int_numeral)
    moreover have "ulp (of_int k) = 2"
      using True by (simp add: ulp_def ex)
    ultimately show ?thesis
      by (intro rnd_exact [of _ "k div 2"]) simp
  next
    case False
    with e53 have le: "e \<le> 52" by simp
    have "(2::real) powr of_int (e - 52) = 1 / 2 ^ nat (52 - e)"
    proof (cases "e = 52")
      case True
      then show ?thesis by simp
    next
      case False
      with le have "\<not> 0 \<le> e - 52" "- (e - 52) = 52 - e" by simp_all
      with powr_int [of "2::real" "e - 52"] show ?thesis
        by (simp only: if_False)
    qed
    then have u: "ulp (of_int k) = 1 / 2 ^ nat (52 - e)"
      by (simp only: ulp_def ex)
    show ?thesis
      by (intro rnd_exact [of _ "k * 2 ^ nat (52 - e)"]) (simp add: u)
  qed
qed

lemma rnd_eval:
  assumes "2 powr of_int e \<le> \<bar>x\<bar>" and "\<bar>x\<bar> < 2 powr of_int (e + 1)" and "- 1022 \<le> e"
  shows "rnd x = of_int (rne (x / 2 powr of_int (e - 52))) * 2 powr of_int (e - 52)"
proof -
  have "x \<noteq> 0" using assms(1) by (smt (verit) powr_gt_zero)
  then show ?thesis
    by (simp add: rnd_def ulp_def expo_eq [OF assms])
qed

lemma rnd_2_53_plus_1: "rnd 9007199254740993 = 9007199254740992"
  using rnd_eval [of 53 9007199254740993] by (simp add: rne_def)

lemma rnd_2_54_minus_3: "rnd 18014398509481981 = 18014398509481980"
  using rnd_eval [of 53 18014398509481981] by (simp add: rne_def)

lemma rnd_small:
  "rnd 0 = 0" "rnd 1 = 1" "rnd 2 = 2" "rnd 3 = 3" "rnd 4 = 4" "rnd 8 = 8"
  using rnd_of_int [of 0] rnd_of_int [of 1] rnd_of_int [of 2] rnd_of_int [of 3]
    rnd_of_int [of 4] rnd_of_int [of 8] by simp_all

lemma rnd_third: "rnd (1 / 3) = 6004799503160661 / 18014398509481984"
  using rnd_eval [of "- 2" "1 / 3"] by (simp add: rne_def powr_neg_numeral)

lemma rnd_eight_thirds:
  "rnd (6004799503160661 / 2251799813685248) = 6004799503160661 / 2251799813685248"
  using rnd_eval [of 1 "6004799503160661 / 2251799813685248"]
  by (simp add: rne_def powr_neg_numeral)

lemma double_ops:
  "add_op double_arith x z = rnd (x + z)" "sub_op double_arith x z = rnd (x - z)"
  "mul_op double_arith x z = rnd (x * z)" "div_op double_arith x z = rnd (x / z)"
  by (simp_all add: double_arith_def)

lemma exact_ops:
  "add_op exact_arith x z = x + z" "sub_op exact_arith x z = x - z"
  "mul_op exact_arith x z = x * z" "div_op exact_arith x z = x / z"
  by (simp_all add: exact_arith_def)

lemma double_cursor:
  assumes "- (2 ^ 53) \<le> k" and "k < 2 ^ 53"
  shows "add_op double_arith (of_int k) 1 = of_int (k + 1)"
proof -
  have "rnd (of_int (k + 1)) = of_int (k + 1)"
    using assms by (intro rnd_of_int) linarith
  then show ?thesis by (simp add: double_ops(1))
qed

section \<open>The loop on any arithmetic\<close>

lemma loop_on_exit:
  "\<not> i \<le> b \<Longrightarrow> sumnation_loop_on A f filter' next b i answer calls = Some (answer, calls)"
  by (subst sumnation_loop_on.simps) simp

lemma loop_on_step:
  "i \<le> b \<Longrightarrow> sumnation_loop_on A f filter' next b i answer calls =
     (if filter' i
      then sumnation_loop_on A f filter' next b (next i) (add_op A answer (f i))
             (calls @ [Call_filter i, Call_f i, Call_next i])
      else sumnation_loop_on A f filter' next b (next i) answer
             (calls @ [Call_filter i, Call_next i]))"
  by (subst sumnation_loop_on.simps) simp

text \<open>
  With the successor \<open>x + 1\<close> of the arithmetic, started at an integer, the loop
  visits the integers up to \<open>b\<close> and returns, provided the addition of 1 is exact at
  each of them; the sum is accumulated in the order of the visits.
\<close>

lemma loop_on_ints:
  assumes "\<forall>k\<in>{i..b}. add_op A (of_int k) 1 = of_int (k + 1)"
  shows "map_option fst
      (sumnation_loop_on A f filter' (\<lambda>x. add_op A x 1) (of_int b) (of_int i) answer calls) =
    Some (foldl (\<lambda>s k. if filter' (of_int k) then add_op A s (f (of_int k)) else s) answer [i..b])"
  using assms
proof (induction "nat (b + 1 - i)" arbitrary: i answer calls)
  case 0
  then have "b < i" by simp
  then show ?case by (simp add: loop_on_exit)
next
  case (Suc m)
  then have le: "i \<le> b" by linarith
  with Suc.prems have cur: "add_op A (of_int i) 1 = of_int (i + 1)" by simp
  have m: "m = nat (b + 1 - (i + 1))" using Suc.hyps(2) by linarith
  have rest: "\<forall>k\<in>{i + 1..b}. add_op A (of_int k) 1 = of_int (k + 1)"
    using Suc.prems by simp
  have list: "[i..b] = i # [i + 1..b]"
    using le by (simp add: upto_rec1)
  have le': "real_of_int i \<le> real_of_int b" using le by simp
  show ?case
    by (cases "filter' (of_int i)")
      (simp_all only: loop_on_step [OF le'] cur Suc.hyps(1) [OF m rest] list foldl_Cons if_True if_False)
qed

text \<open>
  The loop does not return from a cursor in a set that lies below \<open>b\<close> and that the
  successor does not leave.
\<close>

lemma loop_on_invariant_aux:
  "sumnation_loop_on A f filter' next b i answer calls = Some r \<Longrightarrow>
     (\<forall>x. I x \<longrightarrow> x \<le> b \<and> I (next x)) \<longrightarrow> \<not> I i"
proof (rule sumnation_loop_on.raw_induct
    [where P = "\<lambda>A f filter' next b i answer calls r. (\<forall>x. I x \<longrightarrow> x \<le> b \<and> I (next x)) \<longrightarrow> \<not> I i"])
  fix loop and A :: arith and f :: "number \<Rightarrow> number" and filter' "next" b i and answer :: number
    and calls and r :: "number \<times> call list"
  assume IH: "\<And>A f filter' next b i answer calls r.
      loop A f filter' next b i answer calls = Some r \<Longrightarrow>
      (\<forall>x. I x \<longrightarrow> x \<le> b \<and> I (next x)) \<longrightarrow> \<not> I i"
    and body: "(if i \<le> b
          then if filter' i
            then loop A f filter' next b (next i) (add_op A answer (f i))
                   (calls @ [Call_filter i, Call_f i, Call_next i])
            else loop A f filter' next b (next i) answer (calls @ [Call_filter i, Call_next i])
          else Some (answer, calls)) = Some r"
  show "(\<forall>x. I x \<longrightarrow> x \<le> b \<and> I (next x)) \<longrightarrow> \<not> I i"
  proof (intro impI notI)
    assume inv: "\<forall>x. I x \<longrightarrow> x \<le> b \<and> I (next x)" and i: "I i"
    then have "i \<le> b" "I (next i)" by simp_all
    with body IH inv show False
      by (auto split: if_splits)
  qed
qed

lemma loop_on_invariant:
  assumes "\<And>x. I x \<Longrightarrow> x \<le> b \<and> I (next x)" and "I i"
  shows "sumnation_loop_on A f filter' next b i answer calls = None"
proof (cases "sumnation_loop_on A f filter' next b i answer calls")
  case None
  then show ?thesis .
next
  case (Some r)
  from loop_on_invariant_aux [OF this, of I] assms show ?thesis by blast
qed

text \<open>
  With exact arithmetic the loop and Simpson's rule are the functions of the exact
  model.
\<close>

lemma loop_on_exact_aux1:
  "sumnation_loop_on A f filter' next b i answer calls = Some r \<Longrightarrow>
     A = exact_arith \<longrightarrow> sumnation_loop f filter' next b i answer calls = Some r"
proof (rule sumnation_loop_on.raw_induct
    [where P = "\<lambda>A f filter' next b i answer calls r.
       A = exact_arith \<longrightarrow> sumnation_loop f filter' next b i answer calls = Some r"])
  fix loop and A :: arith and f :: "number \<Rightarrow> number" and filter' "next" b i and answer :: number
    and calls and r :: "number \<times> call list"
  assume IH: "\<And>A f filter' next b i answer calls r.
      loop A f filter' next b i answer calls = Some r \<Longrightarrow>
      A = exact_arith \<longrightarrow> sumnation_loop f filter' next b i answer calls = Some r"
    and body: "(if i \<le> b
          then if filter' i
            then loop A f filter' next b (next i) (add_op A answer (f i))
                   (calls @ [Call_filter i, Call_f i, Call_next i])
            else loop A f filter' next b (next i) answer (calls @ [Call_filter i, Call_next i])
          else Some (answer, calls)) = Some r"
  show "A = exact_arith \<longrightarrow> sumnation_loop f filter' next b i answer calls = Some r"
  proof
    assume A: "A = exact_arith"
    show "sumnation_loop f filter' next b i answer calls = Some r"
      using body IH A
      by (subst sumnation_loop.simps) (auto simp add: exact_ops split: if_splits)
  qed
qed

lemma loop_on_exact_aux2:
  "sumnation_loop f filter' next b i answer calls = Some r \<Longrightarrow>
     sumnation_loop_on exact_arith f filter' next b i answer calls = Some r"
proof (rule sumnation_loop.raw_induct
    [where P = "\<lambda>f filter' next b i answer calls r.
       sumnation_loop_on exact_arith f filter' next b i answer calls = Some r"])
  fix loop and f :: "number \<Rightarrow> number" and filter' "next" b i and answer :: number
    and calls and r :: "number \<times> call list"
  assume IH: "\<And>f filter' next b i answer calls r.
      loop f filter' next b i answer calls = Some r \<Longrightarrow>
      sumnation_loop_on exact_arith f filter' next b i answer calls = Some r"
    and body: "(if i \<le> b
          then if filter' i
            then loop f filter' next b (next i) (answer + f i)
                   (calls @ [Call_filter i, Call_f i, Call_next i])
            else loop f filter' next b (next i) answer (calls @ [Call_filter i, Call_next i])
          else Some (answer, calls)) = Some r"
  show "sumnation_loop_on exact_arith f filter' next b i answer calls = Some r"
    using body IH
    by (subst sumnation_loop_on.simps) (auto simp add: exact_ops split: if_splits)
qed

lemma loop_on_exact:
  "sumnation_loop_on exact_arith f filter' next b i answer calls =
     sumnation_loop f filter' next b i answer calls"
proof (cases "sumnation_loop f filter' next b i answer calls")
  case None
  show ?thesis
  proof (cases "sumnation_loop_on exact_arith f filter' next b i answer calls")
    case None
    with \<open>sumnation_loop f filter' next b i answer calls = None\<close> show ?thesis by simp
  next
    case (Some r)
    from loop_on_exact_aux1 [OF this] None show ?thesis by simp
  qed
next
  case (Some r)
  from loop_on_exact_aux2 [OF this] Some show ?thesis by simp
qed

lemma sumnation_on_exact: "sumnation_on exact_arith f filter' a next b = sumnation f filter' a next b"
  by (simp add: sumnation_on_def sumnation_def sumnation_run_def loop_on_exact)

lemma simpsons_rule_on_exact: "simpsons_rule_on exact_arith f a b n = simpsons_rule f a b n"
proof -
  have "simpson_coefficient_on exact_arith f a h = simpson_coefficient f a h" for h
    by (rule ext) (simp add: simpson_coefficient_on_def simpson_coefficient_def y_on_def y_def exact_ops)
  then show ?thesis
    by (simp add: simpsons_rule_on_def simpsons_rule_def addition_on_def addition_def
        sumnation_on_exact exact_ops Let_def)
qed

section \<open>The arithmetic series on doubles\<close>

lemma sum_ints_closed: "a \<le> b \<Longrightarrow> 2 * (\<Sum>j\<in>{a..b}. j) = (b - a + 1) * (a + b)" for a b :: int
proof -
  assume "a \<le> b"
  then have "(\<Sum>j\<in>{a..b}. j) = (b * (b + 1) - a * (a - 1)) div 2"
    by (rule Sum_Icc_int)
  moreover have "even (b * (b + 1) - a * (a - 1))" by simp
  ultimately have "2 * (\<Sum>j\<in>{a..b}. j) = b * (b + 1) - a * (a - 1)" by simp
  then show ?thesis by (simp add: algebra_simps)
qed

lemma double_partial_sums:
  assumes "\<forall>k\<in>{a..a + int n - 1}. \<bar>\<Sum>j\<in>{a..k}. j\<bar> \<le> 2 ^ 53"
  shows "foldl (\<lambda>s k. add_op double_arith s (of_int k)) 0 [a..a + int n - 1] =
    of_int (\<Sum>j\<in>{a..a + int n - 1}. j)"
  using assms
proof (induction n)
  case 0
  then show ?case by simp
next
  case (Suc n)
  let ?b = "a + int n"
  have list: "[a..a + int (Suc n) - 1] = [a..?b - 1] @ [?b]"
    using upto_rec2 [of a ?b] by simp
  have set: "{a..?b} = insert ?b {a..?b - 1}" by auto
  have sum: "(\<Sum>j\<in>{a..?b}. j) = (\<Sum>j\<in>{a..?b - 1}. j) + ?b"
    by (simp add: set)
  have "\<forall>k\<in>{a..?b - 1}. \<bar>\<Sum>j\<in>{a..k}. j\<bar> \<le> 2 ^ 53"
    using Suc.prems by simp
  then have IH: "foldl (\<lambda>s k. add_op double_arith s (of_int k)) 0 [a..?b - 1] =
      of_int (\<Sum>j\<in>{a..?b - 1}. j)"
    by (rule Suc.IH)
  have "\<bar>\<Sum>j\<in>{a..?b}. j\<bar> \<le> 2 ^ 53"
    using Suc.prems by simp
  then have "rnd (of_int (\<Sum>j\<in>{a..?b}. j)) = of_int (\<Sum>j\<in>{a..?b}. j)"
    by (rule rnd_of_int)
  then have r: "rnd (of_int (\<Sum>j\<in>{a..?b - 1}. j) + of_int ?b) = of_int (\<Sum>j\<in>{a..?b}. j)"
    by (simp only: sum of_int_add)
  have "foldl (\<lambda>s k. add_op double_arith s (of_int k)) 0 [a..a + int (Suc n) - 1] =
      add_op double_arith (foldl (\<lambda>s k. add_op double_arith s (of_int k)) 0 [a..?b - 1]) (of_int ?b)"
    by (simp only: list foldl_append foldl_Cons foldl_Nil)
  also have "\<dots> = of_int (\<Sum>j\<in>{a..?b}. j)"
    by (simp only: IH) (simp only: double_ops(1) r)
  also have "?b = a + int (Suc n) - 1" by simp
  finally show ?case .
qed

text \<open>
  C3, as amended. For integers \<open>a \<le> b\<close> with \<open>b < 2\<^sup>5\<^sup>3\<close> such that every partial
  sum \<open>a + (a + 1) + \<dots> + k\<close>, \<open>a \<le> k \<le> b\<close>, has magnitude at most \<open>2\<^sup>5\<^sup>3\<close>, the
  engine with the identity transform, the always-true filter and the successor
  \<open>x + 1\<close>, in the arithmetic of doubles, returns \<open>(b - a + 1) * (a + b) / 2\<close>.
\<close>

theorem sumnation_arithmetic_series:
  assumes "a \<le> b" and "b < 2 ^ 53" and "\<forall>k\<in>{a..b}. \<bar>\<Sum>j\<in>{a..k}. j\<bar> \<le> 2 ^ 53"
  shows "sumnation_on double_arith (\<lambda>x. x) (\<lambda>x. True) (of_int a)
      (\<lambda>x. add_op double_arith x 1) (of_int b) =
    Some (of_int (b - a + 1) * of_int (a + b) / 2)"
proof -
  have "\<bar>\<Sum>j\<in>{a..a}. j\<bar> \<le> 2 ^ 53" using assms(1,3) by (meson atLeastAtMost_iff order_refl)
  then have a: "- (2 ^ 53) \<le> a" by simp
  have cur: "\<forall>k\<in>{a..b}. add_op double_arith (of_int k) 1 = of_int (k + 1)"
  proof
    fix k
    assume "k \<in> {a..b}"
    with a assms(2) show "add_op double_arith (of_int k) 1 = of_int (k + 1)"
      by (intro double_cursor) auto
  qed
  define n where "n = nat (b - a + 1)"
  have b: "b = a + int n - 1" using assms(1) by (simp add: n_def)
  have "sumnation_on double_arith (\<lambda>x. x) (\<lambda>x. True) (of_int a)
      (\<lambda>x. add_op double_arith x 1) (of_int b) =
      Some (foldl (\<lambda>s k. add_op double_arith s (of_int k)) 0 [a..b])"
    using loop_on_ints [OF cur, of "\<lambda>x. x" "\<lambda>x. True" 0 "[]"]
    by (simp only: sumnation_on_def if_True)
  also have "foldl (\<lambda>s k. add_op double_arith s (of_int k)) 0 [a..b] = of_int (\<Sum>j\<in>{a..b}. j)"
    using double_partial_sums [of a n] assms(3) unfolding b [symmetric] by simp
  also have "real_of_int (\<Sum>j\<in>{a..b}. j) = of_int (b - a + 1) * of_int (a + b) / 2"
  proof -
    have "real_of_int (2 * (\<Sum>j\<in>{a..b}. j)) = of_int ((b - a + 1) * (a + b))"
      using sum_ints_closed [OF assms(1)] by simp
    then show ?thesis by simp
  qed
  finally show ?thesis .
qed

theorem sumnation_arithmetic_series_witness:
  "(3::int) \<le> 6 \<and> (6::int) < 2 ^ 53 \<and>
   sumnation_on double_arith (\<lambda>x. x) (\<lambda>x. True) 3 (\<lambda>x. add_op double_arith x 1) 6 = Some 18"
proof -
  have "\<forall>k\<in>{3..6::int}. \<bar>\<Sum>j\<in>{3..k}. j\<bar> \<le> 2 ^ 53"
  proof
    fix k :: int
    assume k: "k \<in> {3..6}"
    then have "2 * (\<Sum>j\<in>{3..k}. j) = (k - 3 + 1) * (3 + k)"
      by (intro sum_ints_closed) simp
    moreover have "0 \<le> (k - 3 + 1) * (3 + k)" using k by simp
    moreover have "(k - 3 + 1) * (3 + k) \<le> 4 * 9"
      using k by (intro mult_mono) simp_all
    ultimately show "\<bar>\<Sum>j\<in>{3..k}. j\<bar> \<le> 2 ^ 53" by simp
  qed
  then show ?thesis
    using sumnation_arithmetic_series [of 3 6] by simp
qed

text \<open>
  Without the bounds the claim fails. From \<open>2\<^sup>5\<^sup>3 - 2\<close> to \<open>2\<^sup>5\<^sup>3\<close> the call does not
  return: the cursor reaches \<open>2\<^sup>5\<^sup>3\<close>, and \<open>2\<^sup>5\<^sup>3 + 1\<close> rounds back to it. From
  \<open>2\<^sup>5\<^sup>3 - 2\<close> to \<open>2\<^sup>5\<^sup>3 - 1\<close> the call returns \<open>2\<^sup>5\<^sup>4 - 4\<close>, the sum
  \<open>2\<^sup>5\<^sup>4 - 3\<close> of the closed form rounded.
\<close>

theorem sumnation_arithmetic_series_counterexample:
  "sumnation_on double_arith (\<lambda>x. x) (\<lambda>x. True) 9007199254740990
      (\<lambda>x. add_op double_arith x 1) 9007199254740992 = None \<and>
   sumnation_on double_arith (\<lambda>x. x) (\<lambda>x. True) 9007199254740990
      (\<lambda>x. add_op double_arith x 1) 9007199254740991 = Some 18014398509481980 \<and>
   (of_int (9007199254740991 - 9007199254740990 + 1) * of_int (9007199254740990 + 9007199254740991) / 2 :: real)
      = 18014398509481981"
proof (intro conjI)
  have r1: "rnd 9007199254740991 = 9007199254740991"
    using rnd_of_int [of 9007199254740991] by simp
  have r2: "rnd 9007199254740992 = 9007199254740992"
    using rnd_of_int [of 9007199254740992] by simp
  have r0: "rnd 9007199254740990 = 9007199254740990"
    using rnd_of_int [of 9007199254740990] by simp
  have "sumnation_loop_on double_arith (\<lambda>x. x) (\<lambda>x. True) (\<lambda>x. add_op double_arith x 1)
      9007199254740992 9007199254740990 0 [] = None"
    by (rule loop_on_invariant
        [where I = "\<lambda>x. x = 9007199254740990 \<or> x = 9007199254740991 \<or> x = 9007199254740992"])
      (auto simp add: double_ops(1) r1 r2 rnd_2_53_plus_1)
  then show "sumnation_on double_arith (\<lambda>x. x) (\<lambda>x. True) 9007199254740990
      (\<lambda>x. add_op double_arith x 1) 9007199254740992 = None"
    by (simp add: sumnation_on_def)
  have cur: "\<forall>k\<in>{9007199254740990..9007199254740991}.
      add_op double_arith (of_int k) 1 = of_int (k + 1)"
  proof
    fix k :: int
    assume "k \<in> {9007199254740990..9007199254740991}"
    then show "add_op double_arith (of_int k) 1 = of_int (k + 1)"
      by (intro double_cursor) auto
  qed
  have list: "[9007199254740990..9007199254740991::int] = [9007199254740990, 9007199254740991]"
    by (simp add: upto_rec1)
  show "sumnation_on double_arith (\<lambda>x. x) (\<lambda>x. True) 9007199254740990
      (\<lambda>x. add_op double_arith x 1) 9007199254740991 = Some 18014398509481980"
    using loop_on_ints [OF cur, of "\<lambda>x. x" "\<lambda>x. True" 0 "[]"]
    by (simp add: sumnation_on_def list double_ops(1) r0 rnd_2_54_minus_3)
  show "(of_int (9007199254740991 - 9007199254740990 + 1) * of_int (9007199254740990 + 9007199254740991) / 2 :: real)
      = 18014398509481981"
    by simp
qed

section \<open>Simpson's rule as a sum, in any arithmetic\<close>

lemma simpson_coefficient_on_int:
  "simpson_coefficient_on A f a h (of_int k) = spec_term A f a h k"
  by (simp add: simpson_coefficient_on_def y_on_def spec_term_def js_rem_int_2 Let_def)

lemma addition_on_ints:
  assumes "\<forall>k\<in>{0..n}. add_op A (of_int k) 1 = of_int (k + 1)"
  shows "addition_on A g 0 (of_int n) = Some (foldl (add_op A) 0 (map (\<lambda>k. g (of_int k)) [0..n]))"
proof -
  have "addition_on A g 0 (of_int n) =
      Some (foldl (\<lambda>s k. add_op A s (g (of_int k))) 0 [0..n])"
    using loop_on_ints [OF assms, of g "\<lambda>x. True" 0 "[]"]
    by (simp only: addition_on_def sumnation_on_def if_True of_int_0)
  then show ?thesis
    by (simp only: foldl_map)
qed

lemma simpsons_rule_on_sum:
  assumes "\<forall>k\<in>{0..n}. add_op A (of_int k) 1 = of_int (k + 1)"
  shows "simpsons_rule_on A f a b (of_int n) =
     Some (mul_op A (div_op A (div_op A (sub_op A b a) (of_int n)) 3)
       (foldl (add_op A) 0
          (map (spec_term A f a (div_op A (sub_op A b a) (of_int n))) [0..n])))"
  by (simp only: simpsons_rule_on_def Let_def addition_on_ints [OF assms]
      simpson_coefficient_on_int option.map)

text \<open>
  C2, as amended. In every arithmetic in which \<open>k + 1\<close> is exact for the integers
  \<open>k = 0, \<dots>, n\<close> (on doubles: for \<open>n < 2\<^sup>5\<^sup>3\<close>), and for a positive integer \<open>n\<close>,
  \<open>simpsons_rule f a b n\<close> returns \<open>h / 3\<close> times the sum of the terms
  \<open>c k * f (a + k * h)\<close> for \<open>k = 0, \<dots>, n\<close>, where \<open>h = (b - a) / n\<close> and \<open>c\<close> is 1 at
  0, 2 at even \<open>k > 0\<close>, \<open>k = n\<close> included, and 4 at odd \<open>k\<close>; every operation is the
  one of the arithmetic, and the sum is accumulated from 0 in the order of \<open>k\<close>.
\<close>

theorem simpsons_rule_formula:
  assumes "0 < n" and "\<forall>k\<in>{0..n}. add_op A (of_int k) 1 = of_int (k + 1)"
  shows "simpsons_rule_on A f a b (of_int n) =
     (let h = div_op A (sub_op A b a) (of_int n)
      in Some (mul_op A (div_op A h 3) (foldl (add_op A) 0 (map (spec_term A f a h) [0..n]))))"
  by (simp only: simpsons_rule_on_sum [OF assms(2)] Let_def)

theorem simpsons_rule_formula_witness:
  "(0::int) < 2 \<and>
   simpsons_rule_on double_arith (\<lambda>x. x) 0 2 2 = Some (6004799503160661 / 2251799813685248)"
proof -
  have cur: "\<forall>k\<in>{0..2}. add_op double_arith (of_int k) 1 = of_int (k + 1)"
  proof
    fix k :: int
    assume "k \<in> {0..2}"
    then show "add_op double_arith (of_int k) 1 = of_int (k + 1)"
      by (intro double_cursor) auto
  qed
  have list: "[0..2::int] = [0, 1, 2]"
    by (simp add: upto_rec1)
  have "simpsons_rule_on double_arith (\<lambda>x. x) 0 2 2 = Some (6004799503160661 / 2251799813685248)"
    using simpsons_rule_formula [of 2 double_arith "\<lambda>x. x" 0 2] cur
    by (simp add: list spec_term_def double_ops rnd_small rnd_third rnd_eight_thirds)
  then show ?thesis by simp
qed

text \<open>
  As stated, for every positive integer \<open>n\<close> and with the operations of the reals, the
  claim fails on doubles. With \<open>n = 2\<^sup>5\<^sup>3 + 2\<close> the call does not return, the index
  being held at \<open>2\<^sup>5\<^sup>3\<close>. With \<open>f\<close> the identity, \<open>a = 0\<close>, \<open>b = 2\<close> and \<open>n = 2\<close>
  the call returns the double next below \<open>8/3\<close>, the quotient \<open>h / 3\<close> being rounded,
  where the formula on the reals gives \<open>8/3\<close>.
\<close>

lemma simpsons_double_2:
  "simpsons_rule_on double_arith (\<lambda>x. x) 0 2 2 = Some (6004799503160661 / 2251799813685248)"
proof -
  have cur: "\<forall>k\<in>{0..2}. add_op double_arith (of_int k) 1 = of_int (k + 1)"
  proof
    fix k :: int
    assume "k \<in> {0..2}"
    then show "add_op double_arith (of_int k) 1 = of_int (k + 1)"
      by (intro double_cursor) auto
  qed
  have list: "[0..2::int] = [0, 1, 2]"
    by (simp add: upto_rec1)
  show ?thesis
    using simpsons_rule_on_sum [OF cur, of "\<lambda>x. x" 0 2]
    by (simp add: list spec_term_def double_ops rnd_small rnd_third rnd_eight_thirds)
qed

theorem simpsons_rule_formula_counterexample:
  "simpsons_rule_on double_arith (\<lambda>x. x) 0 1 9007199254740994 = None \<and>
   simpsons_rule_on double_arith (\<lambda>x. x) 0 2 2 = Some (6004799503160661 / 2251799813685248) \<and>
   (6004799503160661 / 2251799813685248 :: real) \<noteq> (2 - 0) / 2 / 3 * (0 + 4 * 1 + 2 * 2)"
proof (intro conjI)
  let ?I = "\<lambda>x. \<exists>k::int. 0 \<le> k \<and> k \<le> 2 ^ 53 \<and> x = of_int k"
  have step: "?I x \<Longrightarrow> x \<le> 9007199254740994 \<and> ?I (add_op double_arith x 1)" for x
  proof -
    assume "?I x"
    then obtain k :: int where k: "0 \<le> k" "k \<le> 2 ^ 53" "x = of_int k" by blast
    have "x \<le> 9007199254740994"
    proof -
      have "real_of_int k \<le> real_of_int 9007199254740994" using k(2) by (subst of_int_le_iff) simp
      then show ?thesis using k(3) by simp
    qed
    moreover have "?I (add_op double_arith x 1)"
    proof (cases "k = 2 ^ 53")
      case True
      then have "x = 9007199254740992" using k(3) by simp
      then have "add_op double_arith x 1 = of_int (2 ^ 53)"
        by (simp add: double_ops rnd_2_53_plus_1)
      then show ?thesis by (intro exI [of _ "2 ^ 53"]) simp
    next
      case False
      with k have "add_op double_arith x 1 = of_int (k + 1)"
        by (simp only: k(3)) (intro double_cursor, simp_all)
      with k False show ?thesis by (intro exI [of _ "k + 1"]) simp
    qed
    ultimately show ?thesis ..
  qed
  have "sumnation_loop_on double_arith g (\<lambda>x. True) (\<lambda>x. add_op double_arith x 1)
      9007199254740994 0 0 [] = None" for g
    by (rule loop_on_invariant [where I = ?I, OF step]) (simp_all add: exI [of _ 0])
  then show "simpsons_rule_on double_arith (\<lambda>x. x) 0 1 9007199254740994 = None"
    by (simp add: simpsons_rule_on_def addition_on_def sumnation_on_def Let_def)
  show "simpsons_rule_on double_arith (\<lambda>x. x) 0 2 2 = Some (6004799503160661 / 2251799813685248)"
    by (rule simpsons_double_2)
  show "(6004799503160661 / 2251799813685248 :: real) \<noteq> (2 - 0) / 2 / 3 * (0 + 4 * 1 + 2 * 2)"
    by simp
qed

section \<open>The recursion of gcd\<close>

text \<open>
  On integer operands that are not negative, the remainder of the source is the \<open>mod\<close>
  of the integers, the recursion of the source returns with the value of the recursion
  of the specification, and that value is the greatest common divisor.
\<close>

lemma js_rem_nonneg:
  assumes "0 \<le> a" and "0 < b"
  shows "js_rem (of_int a) (of_int b) = of_int (a mod b)"
proof -
  have "a smod b = a mod b"
    using assms by (simp add: signed_modulo_int_def sgn_if)
  with assms show ?thesis
    by (simp add: js_rem_of_int)
qed

lemma gcd_js_nonneg:
  "0 \<le> a \<Longrightarrow> 0 \<le> b \<Longrightarrow> gcd_js (of_int a) (of_int b) = Some (of_int (spec_gcd a b))"
proof (induction a b rule: spec_gcd.induct)
  case (1 a b)
  show ?case
  proof (cases "b = 0")
    case True
    then show ?thesis
      by (simp add: gcd_js.simps [of _ 0] spec_gcd.simps [of a 0])
  next
    case False
    with "1.prems" have b: "0 < b" by simp
    then have m: "0 \<le> a mod b" by simp
    have "gcd_js (of_int a) (of_int b) = gcd_js (of_int b) (js_rem (of_int a) (of_int b))"
      using False by (subst gcd_js.simps) simp
    also have "\<dots> = gcd_js (of_int b) (of_int (a mod b))"
      using "1.prems" b by (simp add: js_rem_nonneg)
    also have "\<dots> = Some (of_int (spec_gcd b (a mod b)))"
      using False "1.prems"(2) m by (rule "1.IH")
    also have "spec_gcd b (a mod b) = spec_gcd a b"
      using False by (simp add: spec_gcd.simps [of a b])
    finally show ?thesis .
  qed
qed

lemma spec_gcd_nonneg: "0 \<le> a \<Longrightarrow> 0 \<le> b \<Longrightarrow> spec_gcd a b = gcd a b"
proof (induction a b rule: spec_gcd.induct)
  case (1 a b)
  show ?case
  proof (cases "b = 0")
    case True
    with "1.prems" show ?thesis
      by (simp add: spec_gcd.simps [of a 0])
  next
    case False
    with "1.prems" have b: "0 < b" by simp
    have "spec_gcd a b = spec_gcd b (a mod b)"
      using False by (simp add: spec_gcd.simps [of a b])
    also have "\<dots> = gcd b (a mod b)"
      using "1.IH" [OF False] b "1.prems" by simp
    also have "\<dots> = gcd a b"
      by (rule gcd_red_int [symmetric])
    finally show ?thesis .
  qed
qed

lemma coprime_js_spec_gcd:
  "0 \<le> i \<Longrightarrow> 0 \<le> n \<Longrightarrow> coprime_js (of_int n) (of_int i) = Some (spec_gcd i n = 1)"
  by (simp add: coprime_js_def gcd_js_nonneg)

lemma coprime_js_nonneg:
  "0 \<le> i \<Longrightarrow> 0 \<le> n \<Longrightarrow> coprime_js (of_int n) (of_int i) = Some (gcd i n = 1)"
  by (simp add: coprime_js_spec_gcd spec_gcd_nonneg)

text \<open>
  C6, as amended. For all integers \<open>n \<ge> 0\<close> and \<open>i \<ge> 0\<close>, \<open>coprime(n)(i)\<close> is true
  exactly when the Euclidean recursion \<open>gcd(a, 0) = a\<close>, \<open>gcd(a, b) = gcd(b, a mod b)\<close>
  gives \<open>gcd(i, n) = 1\<close>, and the recursion gives the greatest common divisor;
  \<open>coprime(12)(5)\<close> is true and \<open>coprime(12)(6)\<close> is false.
\<close>

theorem coprime_js_iff_gcd:
  assumes "0 \<le> i" and "0 \<le> n"
  shows "coprime_js (of_int n) (of_int i) = Some (spec_gcd i n = 1) \<and>
    spec_gcd i n = gcd i n \<and>
    coprime_js 12 5 = Some True \<and>
    coprime_js 12 6 = Some False"
proof (intro conjI)
  show "coprime_js (of_int n) (of_int i) = Some (spec_gcd i n = 1)"
    using assms by (rule coprime_js_spec_gcd)
  show "spec_gcd i n = gcd i n"
    using assms by (rule spec_gcd_nonneg)
  have "spec_gcd 5 12 = 1" "spec_gcd 6 12 = 6"
    by (simp_all add: spec_gcd.simps)
  then show "coprime_js 12 5 = Some True" "coprime_js 12 6 = Some False"
    using coprime_js_spec_gcd [of 5 12] coprime_js_spec_gcd [of 6 12] by simp_all
qed

theorem coprime_js_iff_gcd_witness:
  "(0::int) \<le> 35 \<and> (0::int) \<le> 12 \<and> coprime_js 12 35 = Some (spec_gcd 35 12 = 1) \<and>
   spec_gcd 35 12 = gcd 35 12 \<and> coprime_js 12 5 = Some True \<and> coprime_js 12 6 = Some False"
  using coprime_js_iff_gcd [of 35 12] by simp

text \<open>
  With a negative operand the claim fails. The remainder of the source takes the sign of
  the dividend, so its recursion on \<open>(-5, 12)\<close> runs through \<open>(12, -5)\<close>,
  \<open>(-5, 2)\<close>, \<open>(2, -1)\<close>, \<open>(-1, 0)\<close> and ends in \<open>-1\<close>: \<open>coprime(12)(-5)\<close> is
  false, where the recursion of the specification and the greatest common divisor give 1.
  In the same way \<open>coprime(-1)(0)\<close> is false, the recursion of the source ending in
  \<open>-1\<close>, where the greatest common divisor of 0 and \<open>-1\<close> is 1.
\<close>

theorem coprime_js_iff_gcd_counterexample:
  "coprime_js 12 (- 5) = Some False \<and> spec_gcd (- 5) 12 = 1 \<and> gcd (- 5 :: int) 12 = 1 \<and>
   coprime_js (- 1) 0 = Some False \<and> gcd (0 :: int) (- 1) = 1"
proof (intro conjI)
  show "coprime_js 12 (- 5) = Some False"
    by (simp add: coprime_js_def gcd_js.simps js_rem_def trunc_def)
  show "spec_gcd (- 5) 12 = 1"
    by (simp add: spec_gcd.simps)
  have "gcd (5 :: int) 12 = spec_gcd 5 12"
    by (simp add: spec_gcd_nonneg)
  also have "\<dots> = 1"
    by (simp add: spec_gcd.simps)
  finally show "gcd (- 5 :: int) 12 = 1"
    by simp
  show "coprime_js (- 1) 0 = Some False"
    by (simp add: coprime_js_def gcd_js.simps js_rem_def trunc_def)
  show "gcd (0 :: int) (- 1) = 1"
    by simp
qed

text \<open>
  C9. For integers \<open>i \<ge> 0\<close> and \<open>n \<ge> 0\<close> the recursion of \<open>gcd\<close> returns, and so
  does \<open>coprime(n)(i)\<close>, whether or not \<open>i < n\<close>; the second argument of the recursive
  call, \<open>i % n\<close>, lies in \<open>[0, n)\<close> when \<open>n > 0\<close>.
\<close>

theorem gcd_js_terminates:
  assumes "0 \<le> i" and "0 \<le> n"
  shows "(\<exists>g. gcd_js (of_int i) (of_int n) = Some g) \<and>
    (\<exists>v. coprime_js (of_int n) (of_int i) = Some v) \<and>
    (0 < n \<longrightarrow> 0 \<le> js_rem (of_int i) (of_int n) \<and> js_rem (of_int i) (of_int n) < of_int n)"
proof (intro conjI impI)
  show "\<exists>g. gcd_js (of_int i) (of_int n) = Some g"
    using assms by (simp add: gcd_js_nonneg)
  show "\<exists>v. coprime_js (of_int n) (of_int i) = Some v"
    using assms by (simp add: coprime_js_nonneg)
next
  assume n: "0 < n"
  then have "js_rem (of_int i) (of_int n) = of_int (i smod n)"
    by (simp add: js_rem_of_int)
  moreover have "0 \<le> i smod n" "i smod n < n"
    using assms(1) n by (simp_all add: smod_int_compares)
  ultimately show "0 \<le> js_rem (of_int i) (of_int n)" "js_rem (of_int i) (of_int n) < of_int n"
    by simp_all
qed

theorem gcd_js_terminates_witness:
  "(0::int) \<le> 35 \<and> (0::int) \<le> 12 \<and> (\<exists>g. gcd_js 35 12 = Some g) \<and>
   (\<exists>v. coprime_js 12 35 = Some v) \<and> 0 \<le> js_rem 35 12 \<and> js_rem 35 12 < 12"
  using gcd_js_terminates [of 35 12] by simp

text \<open>
  C10. For integers \<open>i \<ge> 0\<close> and \<open>n \<ge> 0\<close>, \<open>coprime(n)(i)\<close> equals
  \<open>coprime(i)(n)\<close>.
\<close>

theorem coprime_js_symmetric:
  assumes "0 \<le> i" and "0 \<le> n"
  shows "coprime_js (of_int n) (of_int i) = coprime_js (of_int i) (of_int n)"
  using assms by (simp add: coprime_js_nonneg gcd.commute)

theorem coprime_js_symmetric_witness:
  "(0::int) \<le> 5 \<and> (0::int) \<le> 12 \<and> coprime_js 12 5 = coprime_js 5 12"
  using coprime_js_symmetric [of 5 12] by simp

end
